theory Spec2Isabelle
  imports Main
begin

section \<open>Datastore mutations: construction, transforms and batch building\<close>

text \<open>
  A shallow embedding of \<^verbatim>\<open>datastore/mutation.go\<close>. Go pointers that the code
  tests against \<^verbatim>\<open>nil\<close> are options; in-place updates through the receiver
  become functions that return the updated value; a nil pointer dereference is
  an explicit outcome of the function in which it would happen. The receiver
  of a method, the key handed to a constructor and the elements of a batch are
  the values behind non-nil pointers.
\<close>

subsection \<open>Collaborating types\<close>

text \<open>
  Modelled from the spec: the type \<^verbatim>\<open>Key\<close> and its methods live in
  \<^verbatim>\<open>key.go\<close>. The spec describes a key as an opaque identifier with a validity
  predicate, a completeness predicate and a canonical string; the record holds
  what these three methods return for the key. All combinations are admitted.
\<close>

record Key =
  valid :: bool
  Incomplete :: bool
  stringInternal :: string

text \<open>
  Modelled from the spec: \<^verbatim>\<open>keyToProto\<close> and \<^verbatim>\<open>pb.Key\<close> are generated or
  defined elsewhere. The wire key of a delete is the key-only payload, kept
  here as the client key it was encoded from.
\<close>

datatype pb_Key = KeyProto Key

definition keyToProto :: "Key \<Rightarrow> pb_Key" where
  "keyToProto k = KeyProto k"

text \<open>
  \<^verbatim>\<open>pb.Entity\<close>: the property set \<^verbatim>\<open>map[string]*pb.Value\<close> is an association
  list whose order stands for the order in which \<^verbatim>\<open>range\<close> visits the map (Go
  leaves it unspecified). Property values are opaque: the type \<open>'v\<close>.
\<close>

record 'v pb_Entity =
  EntityKey :: "pb_Key option"
  Properties :: "(string \<times> 'v) list"

text \<open>The oneof field \<^verbatim>\<open>Operation\<close> of \<^verbatim>\<open>pb.Mutation\<close>.\<close>

datatype 'v isMutation_Operation =
    Mutation_Insert "'v pb_Entity"
  | Mutation_Update "'v pb_Entity"
  | Mutation_Upsert "'v pb_Entity"
  | Mutation_Delete pb_Key

record pb_PropertyMask =
  Paths :: "string list"

text \<open>
  \<^verbatim>\<open>pb.Mutation\<close>, with the three fields this file touches. A wire transform
  \<^verbatim>\<open>*pb.PropertyTransform\<close> is opaque: the type \<open>'t\<close>. A nil interface in
  \<^verbatim>\<open>Operation\<close> and a nil \<^verbatim>\<open>PropertyMask\<close> are \<open>None\<close>.
\<close>

record ('v, 't) pb_Mutation =
  Operation :: "'v isMutation_Operation option"
  PropertyTransforms :: "'t list"
  PropertyMask :: "pb_PropertyMask option"

text \<open>\<^verbatim>\<open>PropertyTransform\<close>: the client-side wrapper; \<^verbatim>\<open>pb\<close> is nil when it was not built.\<close>

record 't PropertyTransform =
  pb :: "'t option"

text \<open>
  The errors this file creates or passes on. The two incomplete-key errors are
  formatted with the key; an error of the entity encoder is passed on verbatim.
\<close>

datatype error =
    ErrInvalidKey
  | ErrIncompleteKeyUpdate Key
  | ErrIncompleteKeyDelete Key
  | ErrUninitializedMutation
  | ErrTransformOnDelete
  | ErrUninitializedTransform
  | ErrSaveEntity string

fun isIncompleteKeyError :: "error \<Rightarrow> bool" where
  "isIncompleteKeyError (ErrIncompleteKeyUpdate k) = True"
| "isIncompleteKeyError (ErrIncompleteKeyDelete k) = True"
| "isIncompleteKeyError e = False"

type_synonym MultiError = "error option list"

subsection \<open>Mutation\<close>

record ('v, 't) Mutation =
  key :: "Key option"
  mut :: "('v, 't) pb_Mutation option"
  err :: "error option"

text \<open>
  \<^verbatim>\<open>isDelete\<close> reads \<^verbatim>\<open>m.mut.Operation\<close>: with \<^verbatim>\<open>m.mut\<close> nil it dereferences a nil
  pointer (\<open>None\<close>); otherwise the comma-ok type assertion answers, false on a
  nil interface too.
\<close>

definition isDelete :: "('v, 't) Mutation \<Rightarrow> bool option" where
  "isDelete m =
     (case mut m of
        None \<Rightarrow> None
      | Some p \<Rightarrow>
          Some (case Operation p of
                  Some (Mutation_Delete d) \<Rightarrow> True
                | _ \<Rightarrow> False))"

text \<open>
  \<^verbatim>\<open>setMutationProtoPropertyMaskForTransforms\<close>: nothing without transforms;
  otherwise the mask lists the property names of the write payload, and is an
  empty non-nil list for any other operation.
\<close>

definition setMutationProtoPropertyMaskForTransforms ::
    "('v, 't) pb_Mutation \<Rightarrow> ('v, 't) pb_Mutation" where
  "setMutationProtoPropertyMaskForTransforms p =
     (if length (PropertyTransforms p) = 0 then p
      else
        let paths =
          (case Operation p of
             Some (Mutation_Insert e) \<Rightarrow> map fst (Properties e)
           | Some (Mutation_Update e) \<Rightarrow> map fst (Properties e)
           | Some (Mutation_Upsert e) \<Rightarrow> map fst (Properties e)
           | _ \<Rightarrow> [])
        in p\<lparr>PropertyMask := Some \<lparr>Paths = paths\<rparr>\<rparr>)"

text \<open>
  The loop of \<^verbatim>\<open>WithTransforms\<close>: each transform is appended to the wire
  mutation in place; the first one with a nil \<^verbatim>\<open>pb\<close> stops the loop with the
  error, and what was appended before it stays.
\<close>

fun appendTransforms ::
    "('v, 't) pb_Mutation \<Rightarrow> 't PropertyTransform list \<Rightarrow> ('v, 't) pb_Mutation \<times> error option" where
  "appendTransforms p [] = (p, None)"
| "appendTransforms p (transform # transforms) =
     (case pb transform of
        None \<Rightarrow> (p, Some ErrUninitializedTransform)
      | Some t \<Rightarrow>
          appendTransforms (p\<lparr>PropertyTransforms := PropertyTransforms p @ [t]\<rparr>) transforms)"

definition WithTransforms ::
    "('v, 't) Mutation \<Rightarrow> 't PropertyTransform list \<Rightarrow> ('v, 't) Mutation" where
  "WithTransforms m transforms =
     (if err m \<noteq> None then m
      else
        (case mut m of
           None \<Rightarrow> m\<lparr>err := Some ErrUninitializedMutation\<rparr>
         | Some p \<Rightarrow>
             if isDelete m = Some True then m\<lparr>err := Some ErrTransformOnDelete\<rparr>
             else
               (case appendTransforms p transforms of
                  (p', Some e) \<Rightarrow> m\<lparr>mut := Some p', err := Some e\<rparr>
                | (p', None) \<Rightarrow>
                    m\<lparr>mut := Some (setMutationProtoPropertyMaskForTransforms p')\<rparr>)))"

subsection \<open>Constructors\<close>

text \<open>
  The entity encoder \<^verbatim>\<open>saveEntity\<close> is an external collaborator: every
  constructor that calls it takes it as the parameter \<open>saveEntity\<close>, which
  returns the encoder's error or the entity.
\<close>

definition newMutation ::
    "Key \<Rightarrow> 'v isMutation_Operation \<Rightarrow> ('v, 't) Mutation" where
  "newMutation k op =
     \<lparr>key = Some k,
      mut = Some \<lparr>Operation = Some op, PropertyTransforms = [], PropertyMask = None\<rparr>,
      err = None\<rparr>"

definition errMutation :: "error \<Rightarrow> ('v, 't) Mutation" where
  "errMutation e = \<lparr>key = None, mut = None, err = Some e\<rparr>"

definition NewInsert ::
    "(Key \<Rightarrow> 's \<Rightarrow> error + 'v pb_Entity) \<Rightarrow> Key \<Rightarrow> 's \<Rightarrow> ('v, 't) Mutation" where
  "NewInsert saveEntity k src =
     (if \<not> valid k then errMutation ErrInvalidKey
      else
        (case saveEntity k src of
           Inl e \<Rightarrow> errMutation e
         | Inr p \<Rightarrow> newMutation k (Mutation_Insert p)))"

definition NewUpsert ::
    "(Key \<Rightarrow> 's \<Rightarrow> error + 'v pb_Entity) \<Rightarrow> Key \<Rightarrow> 's \<Rightarrow> ('v, 't) Mutation" where
  "NewUpsert saveEntity k src =
     (if \<not> valid k then errMutation ErrInvalidKey
      else
        (case saveEntity k src of
           Inl e \<Rightarrow> errMutation e
         | Inr p \<Rightarrow> newMutation k (Mutation_Upsert p)))"

definition NewUpdate ::
    "(Key \<Rightarrow> 's \<Rightarrow> error + 'v pb_Entity) \<Rightarrow> Key \<Rightarrow> 's \<Rightarrow> ('v, 't) Mutation" where
  "NewUpdate saveEntity k src =
     (if \<not> valid k then errMutation ErrInvalidKey
      else if Incomplete k then errMutation (ErrIncompleteKeyUpdate k)
      else
        (case saveEntity k src of
           Inl e \<Rightarrow> errMutation e
         | Inr p \<Rightarrow> newMutation k (Mutation_Update p)))"

definition NewDelete :: "Key \<Rightarrow> ('v, 't) Mutation" where
  "NewDelete k =
     (if \<not> valid k then errMutation ErrInvalidKey
      else if Incomplete k then errMutation (ErrIncompleteKeyDelete k)
      else newMutation k (Mutation_Delete (keyToProto k)))"

subsection \<open>The batch builder\<close>

text \<open>
  What \<^verbatim>\<open>mutationProtos\<close> can do: return the wire mutations with a nil error,
  return nil with the aggregate error, or dereference a nil pointer.
\<close>

datatype ('v, 't) protosResult =
    Protos "('v, 't) pb_Mutation list"
  | Failed MultiError
  | NilDereference

text \<open>
  The first loop. \<open>n\<close> is \<^verbatim>\<open>len(muts)\<close>, \<open>i\<close> the index of the head of the
  remaining list, \<open>merr\<close> the aggregate, nil until the first error allocates it
  with \<open>n\<close> nil slots.
\<close>

fun collectErrors ::
    "nat \<Rightarrow> nat \<Rightarrow> ('v, 't) Mutation list \<Rightarrow> MultiError option \<Rightarrow> MultiError option" where
  "collectErrors n i [] merr = merr"
| "collectErrors n i (m # ms) merr =
     (case err m of
        None \<Rightarrow> collectErrors n (Suc i) ms merr
      | Some e \<Rightarrow>
          (let merr' = (case merr of None \<Rightarrow> replicate n None | Some es \<Rightarrow> es)
           in collectErrors n (Suc i) ms (Some (merr'[i := Some e]))))"

text \<open>
  The second loop. \<open>seen\<close> is the \<^verbatim>\<open>map[string]bool\<close>, read with false for a
  missing key. \<^verbatim>\<open>m.isDelete()\<close> dereferences \<^verbatim>\<open>m.mut\<close>, so a nil \<^verbatim>\<open>m.mut\<close>
  ends the function there.
  Modelled from the spec: \<^verbatim>\<open>stringInternal\<close> is a method of \<^verbatim>\<open>Key\<close> in
  \<^verbatim>\<open>key.go\<close>; called on the nil key of a delete it is taken to dereference it.
\<close>

definition seenKey :: "(string \<rightharpoonup> bool) \<Rightarrow> string \<Rightarrow> bool" where
  "seenKey seen ks = (case seen ks of None \<Rightarrow> False | Some b \<Rightarrow> b)"

fun collectProtos ::
    "(string \<rightharpoonup> bool) \<Rightarrow> ('v, 't) Mutation list \<Rightarrow> ('v, 't) pb_Mutation list
      \<Rightarrow> ('v, 't) protosResult" where
  "collectProtos seen [] protos = Protos protos"
| "collectProtos seen (m # ms) protos =
     (case mut m of
        None \<Rightarrow> NilDereference
      | Some p \<Rightarrow>
          if isDelete m = Some True then
            (case key m of
               None \<Rightarrow> NilDereference
             | Some k \<Rightarrow>
                 (let ks = stringInternal k
                  in if seenKey seen ks then collectProtos seen ms protos
                     else collectProtos (seen(ks \<mapsto> True)) ms (protos @ [p])))
          else collectProtos seen ms (protos @ [p]))"

definition mutationProtos :: "('v, 't) Mutation list \<Rightarrow> ('v, 't) protosResult" where
  "mutationProtos muts =
     (case collectErrors (length muts) 0 muts None of
        Some merr \<Rightarrow> Failed merr
      | None \<Rightarrow> collectProtos Map.empty muts [])"

subsection \<open>Mutations a caller can hold\<close>

text \<open>
  \<open>constructed\<close>: what the four constructors return. \<open>reachable\<close>: a
  constructed mutation decorated by any number of \<^verbatim>\<open>WithTransforms\<close> calls.
  \<open>produced\<close>: what a constructor or a \<^verbatim>\<open>WithTransforms\<close> call (on any receiver,
  the zero value included) returns.
\<close>

inductive constructed ::
    "(Key \<Rightarrow> 's \<Rightarrow> error + 'v pb_Entity) \<Rightarrow> ('v, 't) Mutation \<Rightarrow> bool"
  for saveEntity :: "Key \<Rightarrow> 's \<Rightarrow> error + 'v pb_Entity" where
  byNewInsert: "constructed saveEntity (NewInsert saveEntity k src)"
| byNewUpsert: "constructed saveEntity (NewUpsert saveEntity k src)"
| byNewUpdate: "constructed saveEntity (NewUpdate saveEntity k src)"
| byNewDelete: "constructed saveEntity (NewDelete k)"

inductive reachable ::
    "(Key \<Rightarrow> 's \<Rightarrow> error + 'v pb_Entity) \<Rightarrow> ('v, 't) Mutation \<Rightarrow> bool"
  for saveEntity :: "Key \<Rightarrow> 's \<Rightarrow> error + 'v pb_Entity" where
  fresh: "constructed saveEntity m \<Longrightarrow> reachable saveEntity m"
| decorated: "reachable saveEntity m \<Longrightarrow> reachable saveEntity (WithTransforms m transforms)"

inductive produced ::
    "(Key \<Rightarrow> 's \<Rightarrow> error + 'v pb_Entity) \<Rightarrow> ('v, 't) Mutation \<Rightarrow> bool"
  for saveEntity :: "Key \<Rightarrow> 's \<Rightarrow> error + 'v pb_Entity" where
  byConstructor: "constructed saveEntity m \<Longrightarrow> produced saveEntity m"
| byWithTransforms: "produced saveEntity (WithTransforms m transforms)"

text \<open>The zero value \<^verbatim>\<open>Mutation{}\<close>.\<close>

definition zeroMutation :: "('v, 't) Mutation" where
  "zeroMutation = \<lparr>key = None, mut = None, err = None\<rparr>"

text \<open>An operation is present: \<^verbatim>\<open>m.mut\<close> is set and its \<^verbatim>\<open>Operation\<close> is.\<close>

definition hasOperation :: "('v, 't) Mutation \<Rightarrow> bool" where
  "hasOperation m = (case mut m of None \<Rightarrow> False | Some p \<Rightarrow> Operation p \<noteq> None)"

text \<open>
  The valid state of a mutation in a batch: no error, the wire mutation
  present, and a delete has the key it deletes.
\<close>

definition validState :: "('v, 't) Mutation \<Rightarrow> bool" where
  "validState m \<longleftrightarrow>
     err m = None \<and> mut m \<noteq> None \<and> (isDelete m = Some True \<longrightarrow> key m \<noteq> None)"

subsection \<open>The batch rule in the words of the specification\<close>

text \<open>
  The canonical key string of a mutation, and the rule of the specification:
  the mutation at index \<open>i\<close> is skipped exactly when it is a delete and an
  earlier mutation of the batch is a delete with the same key string; all
  others are emitted, in input order.
\<close>

definition keyString :: "('v, 't) Mutation \<Rightarrow> string option" where
  "keyString m = map_option stringInternal (key m)"

definition duplicateDelete :: "('v, 't) Mutation list \<Rightarrow> nat \<Rightarrow> bool" where
  "duplicateDelete muts i \<longleftrightarrow>
     isDelete (muts ! i) = Some True \<and>
     (\<exists>d \<in> set (take i muts). isDelete d = Some True \<and> keyString d = keyString (muts ! i))"

definition emittedIndices :: "('v, 't) Mutation list \<Rightarrow> nat list" where
  "emittedIndices muts = filter (\<lambda>i. \<not> duplicateDelete muts i) [0..<length muts]"

text \<open>
  The invariant of the second loop of \<^verbatim>\<open>mutationProtos\<close>: \<open>seen\<close> answers true
  exactly for the key strings of the deletes among the mutations already
  visited, \<open>pre\<close>.
\<close>

definition seenOf :: "(string \<rightharpoonup> bool) \<Rightarrow> ('v, 't) Mutation list \<Rightarrow> bool" where
  "seenOf seen pre \<longleftrightarrow>
     (\<forall>ks. seenKey seen ks = (\<exists>d \<in> set pre. isDelete d = Some True \<and> keyString d = Some ks))"

subsection \<open>Concrete inputs\<close>

text \<open>
  An entity encoder for concrete runs: the source is the property list itself,
  as when a \<^verbatim>\<open>PropertyList\<close> is saved. Four keys: two valid complete ones, one
  valid and incomplete, one invalid and incomplete.
\<close>

definition savePropertyList :: "Key \<Rightarrow> (string \<times> 'v) list \<Rightarrow> error + 'v pb_Entity" where
  "savePropertyList k src = Inr \<lparr>EntityKey = Some (keyToProto k), Properties = src\<rparr>"

abbreviation keyK :: Key where
  "keyK \<equiv> \<lparr>valid = True, Incomplete = False, stringInternal = ''K''\<rparr>"

abbreviation keyL :: Key where
  "keyL \<equiv> \<lparr>valid = True, Incomplete = False, stringInternal = ''L''\<rparr>"

abbreviation keyIncomplete :: Key where
  "keyIncomplete \<equiv> \<lparr>valid = True, Incomplete = True, stringInternal = ''I''\<rparr>"

abbreviation keyBad :: Key where
  "keyBad \<equiv> \<lparr>valid = False, Incomplete = True, stringInternal = ''B''\<rparr>"

section \<open>Properties\<close>

lemmas ctor_defs = NewInsert_def NewUpsert_def NewUpdate_def NewDelete_def errMutation_def
  newMutation_def savePropertyList_def keyToProto_def

subsection \<open>The loop of WithTransforms\<close>

lemma appendTransforms_valid:
  "\<forall>t \<in> set ts. pb t \<noteq> None \<Longrightarrow>
   appendTransforms p ts =
     (p\<lparr>PropertyTransforms := PropertyTransforms p @ List.map_filter pb ts\<rparr>, None)"
  by (induction ts arbitrary: p) auto

lemma appendTransforms_invalid:
  "i < length ts \<Longrightarrow> pb (ts ! i) = None \<Longrightarrow> \<forall>j<i. pb (ts ! j) \<noteq> None \<Longrightarrow>
   appendTransforms p ts =
     (p\<lparr>PropertyTransforms := PropertyTransforms p @ List.map_filter pb (take i ts)\<rparr>,
      Some ErrUninitializedTransform)"
proof (induction ts arbitrary: p i)
  case Nil
  then show ?case by simp
next
  case (Cons t ts)
  show ?case
  proof (cases i)
    case 0
    with Cons.prems show ?thesis by simp
  next
    case (Suc i')
    from Cons.prems(3) Suc obtain x where x: "pb t = Some x" by fastforce
    have "\<forall>j<i'. pb (ts ! j) \<noteq> None"
      using Cons.prems(3) Suc by fastforce
    with Cons.prems(1,2) Suc
    have "appendTransforms (p\<lparr>PropertyTransforms := PropertyTransforms p @ [x]\<rparr>) ts =
       ((p\<lparr>PropertyTransforms := PropertyTransforms p @ [x]\<rparr>)
          \<lparr>PropertyTransforms := PropertyTransforms (p\<lparr>PropertyTransforms := PropertyTransforms p @ [x]\<rparr>)
               @ List.map_filter pb (take i' ts)\<rparr>,
        Some ErrUninitializedTransform)"
      by (intro Cons.IH) simp_all
    with x Suc show ?thesis by simp
  qed
qed

lemma appendTransforms_keeps:
  "appendTransforms p ts = (p', r) \<Longrightarrow> Operation p' = Operation p \<and> PropertyMask p' = PropertyMask p"
  by (induction ts arbitrary: p) (auto split: option.splits)

lemma map_filter_all_Some:
  "\<forall>x \<in> set xs. f x \<noteq> None \<Longrightarrow> map Some (List.map_filter f xs) = map f xs"
  by (induction xs) auto

lemma take_all_valid:
  assumes "i \<le> length ts" and "\<forall>j<i. pb (ts ! j) \<noteq> None"
  shows "\<forall>t \<in> set (take i ts). pb t \<noteq> None"
  using assms by (auto simp: in_set_conv_nth)

lemma setMask_Operation:
  "Operation (setMutationProtoPropertyMaskForTransforms p) = Operation p"
  by (simp add: setMutationProtoPropertyMaskForTransforms_def Let_def)

lemma setMask_PropertyTransforms:
  "PropertyTransforms (setMutationProtoPropertyMaskForTransforms p) = PropertyTransforms p"
  by (simp add: setMutationProtoPropertyMaskForTransforms_def Let_def)

subsection \<open>WithTransforms, case by case\<close>

lemma WithTransforms_err: "err m \<noteq> None \<Longrightarrow> WithTransforms m ts = m"
  by (simp add: WithTransforms_def)

lemma WithTransforms_valid:
  assumes "err m = None" and "mut m = Some p" and "isDelete m = Some False"
    and "\<forall>t \<in> set ts. pb t \<noteq> None"
  shows "WithTransforms m ts =
     m\<lparr>mut := Some (setMutationProtoPropertyMaskForTransforms
                 (p\<lparr>PropertyTransforms := PropertyTransforms p @ List.map_filter pb ts\<rparr>))\<rparr>"
  using assms(1-3) by (simp add: WithTransforms_def appendTransforms_valid [OF assms(4)])

lemma WithTransforms_invalid:
  assumes "err m = None" and "mut m = Some p" and "isDelete m = Some False"
    and "i < length ts" and "pb (ts ! i) = None" and "\<forall>j<i. pb (ts ! j) \<noteq> None"
  shows "WithTransforms m ts =
           m\<lparr>mut := Some (p\<lparr>PropertyTransforms := PropertyTransforms p @ List.map_filter pb (take i ts)\<rparr>),
             err := Some ErrUninitializedTransform\<rparr>"
  using assms(1-3) by (simp add: WithTransforms_def appendTransforms_invalid [OF assms(4-6)])

lemma first_invalid:
  assumes "\<not> (\<forall>t \<in> set ts. pb t \<noteq> None)"
  shows "\<exists>i. i < length ts \<and> pb (ts ! i) = None \<and> (\<forall>j<i. pb (ts ! j) \<noteq> None)"
proof -
  from assms have "\<exists>i. i < length ts \<and> pb (ts ! i) = None"
    by (auto simp: in_set_conv_nth)
  then obtain i where "i < length ts \<and> pb (ts ! i) = None"
    and "\<forall>j<i. \<not> (j < length ts \<and> pb (ts ! j) = None)"
    using exists_least_iff [of "\<lambda>i. i < length ts \<and> pb (ts ! i) = None"] by blast
  then show ?thesis by (intro exI [of _ i]) auto
qed

lemma WithTransforms_success:
  assumes "err (WithTransforms m ts) = None"
  shows "\<exists>p p'. err m = None \<and> mut m = Some p \<and> isDelete m = Some False \<and>
           (\<forall>t \<in> set ts. pb t \<noteq> None) \<and>
           mut (WithTransforms m ts) = Some p' \<and> Operation p' = Operation p \<and>
           isDelete (WithTransforms m ts) = Some False"
proof -
  from assms have e: "err m = None"
    by (cases "err m") (simp_all add: WithTransforms_def)
  with assms obtain p where p: "mut m = Some p"
    by (cases "mut m") (simp_all add: WithTransforms_def)
  from assms e p have d: "isDelete m = Some False"
    by (auto simp: WithTransforms_def isDelete_def split: if_splits)
  have v: "\<forall>t \<in> set ts. pb t \<noteq> None"
  proof (rule ccontr)
    assume "\<not> (\<forall>t \<in> set ts. pb t \<noteq> None)"
    from first_invalid [OF this]
    obtain i where "i < length ts" and "pb (ts ! i) = None" and "\<forall>j<i. pb (ts ! j) \<noteq> None"
      by blast
    from WithTransforms_invalid [OF e p d this] assms show False by simp
  qed
  from WithTransforms_valid [OF e p d v] e p d v show ?thesis
    by (simp add: isDelete_def setMask_Operation)
qed

lemma WithTransforms_hasOperation:
  "hasOperation m \<Longrightarrow> hasOperation (WithTransforms m ts)"
  by (auto simp: hasOperation_def WithTransforms_def setMask_Operation
           split: option.splits prod.splits dest: appendTransforms_keeps)

lemma hasOperation_mut: "hasOperation m \<Longrightarrow> mut m \<noteq> None"
  by (auto simp: hasOperation_def split: option.splits)

subsection \<open>What constructors and decoration establish\<close>

lemma constructed_state:
  assumes "constructed saveEntity m"
  shows "(err m \<noteq> None \<and> mut m = None) \<or> (err m = None \<and> hasOperation m \<and> key m \<noteq> None)"
  using assms
  by cases
     (auto simp: NewInsert_def NewUpsert_def NewUpdate_def NewDelete_def errMutation_def
                 newMutation_def hasOperation_def split: sum.splits)

lemma reachable_state:
  assumes "reachable saveEntity m"
  shows "err m \<noteq> None \<or> hasOperation m"
  using assms
proof induction
  case (fresh m)
  then show ?case using constructed_state by blast
next
  case (decorated m transforms)
  then show ?case
    using WithTransforms_err [of m transforms] WithTransforms_hasOperation [of m transforms]
    by auto
qed

lemma produced_state:
  assumes "produced saveEntity m"
  shows "err m \<noteq> None \<or> validState m"
  using assms
proof cases
  case byConstructor
  then show ?thesis
    using constructed_state [of saveEntity m] by (auto simp: validState_def hasOperation_mut)
next
  case (byWithTransforms m0 transforms)
  show ?thesis
  proof (cases "err m")
    case None
    with byWithTransforms WithTransforms_success [of m0 transforms]
    show ?thesis by (auto simp: validState_def)
  next
    case (Some e)
    then show ?thesis by simp
  qed
qed

subsection \<open>The two loops of the batch builder\<close>

lemma collectErrors_allocated:
  "collectErrors (length pre + length ms) (length pre) ms
      (Some (map err pre @ replicate (length ms) None)) =
   Some (map err (pre @ ms))"
proof (induction ms arbitrary: pre)
  case Nil
  show ?case by simp
next
  case (Cons m ms)
  have len: "length pre + length (m # ms) = length (pre @ [m]) + length ms" by simp
  have idx: "Suc (length pre) = length (pre @ [m])" by simp
  show ?case
  proof (cases "err m")
    case None
    then have "map err pre @ replicate (length (m # ms)) None =
               map err (pre @ [m]) @ replicate (length ms) None" by simp
    with None Cons.IH [of "pre @ [m]"] show ?thesis
      by (simp only: collectErrors.simps option.case len idx) simp
  next
    case (Some e)
    have "(map err pre @ replicate (length (m # ms)) None)[length pre := Some e] =
               map err (pre @ [m]) @ replicate (length ms) None"
      using Some by (simp add: list_update_append)
    with Some Cons.IH [of "pre @ [m]"] show ?thesis
      by (simp only: collectErrors.simps option.case Let_def len idx) simp
  qed
qed

lemma collectErrors_fresh:
  assumes "\<forall>m \<in> set pre. err m = None"
  shows "collectErrors (length pre + length ms) (length pre) ms None =
     (if \<forall>m \<in> set ms. err m = None then None else Some (map err (pre @ ms)))"
  using assms
proof (induction ms arbitrary: pre)
  case Nil
  show ?case by simp
next
  case (Cons m ms)
  have len: "length pre + length (m # ms) = length (pre @ [m]) + length ms" by simp
  have idx: "Suc (length pre) = length (pre @ [m])" by simp
  show ?case
  proof (cases "err m")
    case None
    with Cons.prems have "\<forall>x \<in> set (pre @ [m]). err x = None" by simp
    from Cons.IH [OF this] None show ?thesis
      by (simp only: collectErrors.simps option.case len idx) simp
  next
    case (Some e)
    from Cons.prems have mp: "map err pre = replicate (length pre) None"
      by (induction pre) auto
    have a: "replicate (length pre + length (m # ms)) None =
               replicate (length pre) None @ None # replicate (length ms) None"
      by (simp add: replicate_add replicate_append_same)
    have b: "(replicate (length pre) None @ None # replicate (length ms) None)[length pre := Some e] =
               replicate (length pre) None @ Some e # replicate (length ms) None"
      using list_update_length [of "replicate (length pre) None"] by simp
    have c: "replicate (length pre) None @ Some e # replicate (length ms) None =
               map err (pre @ [m]) @ replicate (length ms) None"
      using Some by (simp add: mp)
    have "(replicate (length pre + length (m # ms)) None)[length pre := Some e] =
               map err (pre @ [m]) @ replicate (length ms) None"
      by (simp only: a b c)
    with Some collectErrors_allocated [of "pre @ [m]" ms] show ?thesis
      by (simp only: collectErrors.simps option.case Let_def len idx) simp
  qed
qed

lemma collectErrors_eq:
  "collectErrors (length muts) 0 muts None =
     (if \<forall>m \<in> set muts. err m = None then None else Some (map err muts))"
  using collectErrors_fresh [of "[]" muts] by simp

lemma mutationProtos_no_errors:
  "\<forall>m \<in> set muts. err m = None \<Longrightarrow> mutationProtos muts = collectProtos Map.empty muts []"
  by (simp add: mutationProtos_def collectErrors_eq)

lemma seenOf_empty: "seenOf Map.empty []"
  by (simp add: seenOf_def seenKey_def)

lemma seenOf_skip:
  "seenOf seen pre \<Longrightarrow> isDelete m \<noteq> Some True \<Longrightarrow> seenOf seen (pre @ [m])"
  by (auto simp: seenOf_def)

lemma seenOf_again:
  "seenOf seen pre \<Longrightarrow> keyString m = Some ks \<Longrightarrow> seenKey seen ks \<Longrightarrow> seenOf seen (pre @ [m])"
  by (auto simp: seenOf_def)

lemma seenOf_mark:
  "seenOf seen pre \<Longrightarrow> isDelete m = Some True \<Longrightarrow> keyString m = Some ks \<Longrightarrow>
   seenOf (seen(ks \<mapsto> True)) (pre @ [m])"
  by (auto simp: seenOf_def seenKey_def)

lemma duplicateDelete_at_length:
  assumes "seenOf seen pre" and "keyString m = Some ks"
  shows "duplicateDelete (pre @ m # ms) (length pre) \<longleftrightarrow> isDelete m = Some True \<and> seenKey seen ks"
  using assms by (auto simp: duplicateDelete_def seenOf_def)

lemma duplicateDelete_nondelete:
  "isDelete m \<noteq> Some True \<Longrightarrow> \<not> duplicateDelete (pre @ m # ms) (length pre)"
  by (simp add: duplicateDelete_def)

lemma collectProtos_spec:
  assumes "\<forall>m \<in> set ms. validState m" and "seenOf seen pre"
  shows "\<exists>out. collectProtos seen ms protos = Protos (protos @ out) \<and>
           map Some out =
             map (\<lambda>i. mut ((pre @ ms) ! i))
               (filter (\<lambda>i. \<not> duplicateDelete (pre @ ms) i) [length pre..<length pre + length ms])"
  using assms
proof (induction ms arbitrary: pre seen protos)
  case Nil
  show ?case by simp
next
  case (Cons m ms)
  from Cons.prems(1) obtain p where p: "mut m = Some p"
    and k: "isDelete m = Some True \<longrightarrow> key m \<noteq> None"
    by (auto simp: validState_def)
  from Cons.prems(1) have rest: "\<forall>x \<in> set ms. validState x" by simp
  have app: "pre @ m # ms = (pre @ [m]) @ ms" by simp
  define r where "r = [length (pre @ [m])..<length (pre @ [m]) + length ms]"
  have l1: "Suc (length pre) = length (pre @ [m])"
    and l2: "length pre + length (m # ms) = length (pre @ [m]) + length ms"
    by simp_all
  have "length pre < length pre + length (m # ms)" by simp
  then have "[length pre..<length pre + length (m # ms)] =
               length pre # [Suc (length pre)..<length pre + length (m # ms)]"
    by (rule upt_conv_Cons)
  then have upt: "[length pre..<length pre + length (m # ms)] = length pre # r"
    by (simp only: l1 l2 r_def)
  have here: "mut ((pre @ m # ms) ! length pre) = Some p"
    using p by simp
  show ?case
  proof (cases "isDelete m = Some True")
    case False
    then have nd: "\<not> duplicateDelete (pre @ m # ms) (length pre)"
      by (rule duplicateDelete_nondelete)
    from Cons.IH [OF rest seenOf_skip [OF Cons.prems(2) False], of "protos @ [p]", folded app r_def]
    obtain out where o: "collectProtos seen ms (protos @ [p]) = Protos ((protos @ [p]) @ out)"
      and m: "map Some out = map (\<lambda>i. mut ((pre @ m # ms) ! i))
               (filter (\<lambda>i. \<not> duplicateDelete (pre @ m # ms) i) r)"
      by blast
    have "collectProtos seen (m # ms) protos = Protos (protos @ p # out)"
      using p False o by simp
    moreover have "map Some (p # out) =
             map (\<lambda>i. mut ((pre @ m # ms) ! i))
               (filter (\<lambda>i. \<not> duplicateDelete (pre @ m # ms) i) [length pre..<length pre + length (m # ms)])"
      unfolding upt using nd here m by simp
    ultimately show ?thesis by blast
  next
    case True
    with k obtain kk where kk: "key m = Some kk" by auto
    then have ks: "keyString m = Some (stringInternal kk)" by (simp add: keyString_def)
    show ?thesis
    proof (cases "seenKey seen (stringInternal kk)")
      case seen: True
      then have d: "duplicateDelete (pre @ m # ms) (length pre)"
        using duplicateDelete_at_length [OF Cons.prems(2) ks] True by simp
      from Cons.IH [OF rest seenOf_again [OF Cons.prems(2) ks seen], of protos, folded app r_def]
      obtain out where o: "collectProtos seen ms protos = Protos (protos @ out)"
        and m: "map Some out = map (\<lambda>i. mut ((pre @ m # ms) ! i))
               (filter (\<lambda>i. \<not> duplicateDelete (pre @ m # ms) i) r)"
        by blast
      have "collectProtos seen (m # ms) protos = Protos (protos @ out)"
        using p True kk seen o by simp
      moreover have "map Some out =
             map (\<lambda>i. mut ((pre @ m # ms) ! i))
               (filter (\<lambda>i. \<not> duplicateDelete (pre @ m # ms) i) [length pre..<length pre + length (m # ms)])"
        unfolding upt using d m by simp
      ultimately show ?thesis by blast
    next
      case notseen: False
      then have nd: "\<not> duplicateDelete (pre @ m # ms) (length pre)"
        using duplicateDelete_at_length [OF Cons.prems(2) ks] by simp
      from Cons.IH [OF rest seenOf_mark [OF Cons.prems(2) True ks], of "protos @ [p]", folded app r_def]
      obtain out where
        o: "collectProtos (seen(stringInternal kk \<mapsto> True)) ms (protos @ [p]) = Protos ((protos @ [p]) @ out)"
        and m: "map Some out = map (\<lambda>i. mut ((pre @ m # ms) ! i))
               (filter (\<lambda>i. \<not> duplicateDelete (pre @ m # ms) i) r)"
        by blast
      have "collectProtos seen (m # ms) protos = Protos (protos @ p # out)"
        using p True kk notseen o by simp
      moreover have "map Some (p # out) =
             map (\<lambda>i. mut ((pre @ m # ms) ! i))
               (filter (\<lambda>i. \<not> duplicateDelete (pre @ m # ms) i) [length pre..<length pre + length (m # ms)])"
        unfolding upt using nd here m by simp
      ultimately show ?thesis by blast
    qed
  qed
qed

lemma mutationProtos_valid:
  assumes "\<forall>m \<in> set muts. validState m"
  shows "\<exists>protos. mutationProtos muts = Protos protos \<and>
           map Some protos = map (\<lambda>i. mut (muts ! i)) (emittedIndices muts)"
proof -
  from assms have "\<forall>m \<in> set muts. err m = None" by (simp add: validState_def)
  then have "mutationProtos muts = collectProtos Map.empty muts []"
    by (rule mutationProtos_no_errors)
  with collectProtos_spec [OF assms seenOf_empty, of "[]"] show ?thesis
    by (simp add: emittedIndices_def)
qed

section \<open>The claims\<close>

subsection \<open>C1: error state or valid state\<close>

text \<open>
  Claim C1, as amended. Every mutation built by a constructor and decorated by
  any sequence of \<^verbatim>\<open>WithTransforms\<close> calls has its error set, or has no error and
  an operation present; it never has neither. For a mutation straight from a
  constructor the two states exclude each other: with the error set the
  operation is absent.
\<close>

theorem reachable_error_or_operation:
  "(reachable saveEntity m \<longrightarrow> err m \<noteq> None \<or> (err m = None \<and> hasOperation m)) \<and>
   (constructed saveEntity m \<longrightarrow>
      (err m \<noteq> None \<and> \<not> hasOperation m) \<or> (err m = None \<and> hasOperation m))"
  using reachable_state [of saveEntity m] constructed_state [of saveEntity m]
  by (auto simp: hasOperation_def)

text \<open>A delete of a valid complete key is constructed, free of error, and has its operation.\<close>

theorem reachable_error_or_operation_witness:
  "reachable (savePropertyList :: Key \<Rightarrow> (string \<times> nat) list \<Rightarrow> error + nat pb_Entity)
      (WithTransforms (NewDelete keyK :: (nat, nat) Mutation) []) \<and>
   constructed (savePropertyList :: Key \<Rightarrow> (string \<times> nat) list \<Rightarrow> error + nat pb_Entity)
      (NewDelete keyK :: (nat, nat) Mutation) \<and>
   err (NewDelete keyK :: (nat, nat) Mutation) = None \<and>
   hasOperation (NewDelete keyK :: (nat, nat) Mutation)"
proof -
  let ?enc = "savePropertyList :: Key \<Rightarrow> (string \<times> nat) list \<Rightarrow> error + nat pb_Entity"
  let ?d = "NewDelete keyK :: (nat, nat) Mutation"
  have c: "constructed ?enc ?d" by (rule constructed.byNewDelete)
  then have r: "reachable ?enc (WithTransforms ?d [])" by (intro reachable.intros)
  have e: "err ?d = None" by (simp add: ctor_defs)
  with c reachable_error_or_operation [of ?enc ?d] have "hasOperation ?d" by simp
  with c r e show ?thesis by simp
qed

text \<open>
  The claim as stated fails: \<^verbatim>\<open>NewDelete(K).WithTransforms()\<close> carries the
  delete-transform error and still has its operation.
\<close>

theorem error_and_operation_counterexample:
  "err (WithTransforms (NewDelete keyK :: (nat, nat) Mutation) []) = Some ErrTransformOnDelete \<and>
   mut (WithTransforms (NewDelete keyK :: (nat, nat) Mutation) []) =
     Some \<lparr>Operation = Some (Mutation_Delete (KeyProto keyK)), PropertyTransforms = [],
           PropertyMask = None\<rparr> \<and>
   hasOperation (WithTransforms (NewDelete keyK :: (nat, nat) Mutation) [])"
  by (simp add: ctor_defs WithTransforms_def isDelete_def hasOperation_def)

subsection \<open>C2: the derived property mask\<close>

text \<open>
  Claim C2. For an error-free Insert, Update or Upsert mutation with payload
  \<open>e\<close>, after a \<^verbatim>\<open>WithTransforms\<close> call that succeeds and leaves the transform list
  non-empty, the operation is unchanged and the property mask is present and
  lists the property names of \<open>e\<close>: as a set it is exactly the set of these
  names, and for a payload without properties it is the empty list, present.
\<close>

theorem mask_equals_payload_names:
  assumes "err m = None" and "mut m = Some p" and "Operation p = Some op"
    and "op = Mutation_Insert e \<or> op = Mutation_Update e \<or> op = Mutation_Upsert e"
    and "err (WithTransforms m transforms) = None"
    and "mut (WithTransforms m transforms) = Some p'"
    and "PropertyTransforms p' \<noteq> []"
  shows "Operation p' = Some op \<and>
         (\<exists>mask. PropertyMask p' = Some mask \<and>
            Paths mask = map fst (Properties e) \<and>
            set (Paths mask) = fst ` set (Properties e) \<and>
            (Properties e = [] \<longrightarrow> Paths mask = []))"
proof -
  from assms(2,3,4) have d: "isDelete m = Some False"
    by (auto simp: isDelete_def)
  from WithTransforms_success [OF assms(5)]
  have v: "\<forall>t \<in> set transforms. pb t \<noteq> None" by blast
  let ?q = "p\<lparr>PropertyTransforms := PropertyTransforms p @ List.map_filter pb transforms\<rparr>"
  from WithTransforms_valid [OF assms(1,2) d v] assms(6)
  have p': "p' = setMutationProtoPropertyMaskForTransforms ?q" by simp
  with assms(7) have ne: "PropertyTransforms ?q \<noteq> []"
    by (simp add: setMask_PropertyTransforms)
  have o: "Operation ?q = Some op" using assms(3) by simp
  from assms(4) o ne have "PropertyMask p' = Some \<lparr>Paths = map fst (Properties e)\<rparr>"
    unfolding p' setMutationProtoPropertyMaskForTransforms_def Let_def by auto
  moreover have "Operation p' = Some op"
    unfolding p' using o by (simp add: setMask_Operation)
  ultimately show ?thesis by simp
qed

text \<open>
  An upsert writing \<open>x\<close> and \<open>y\<close> gets the mask \<open>[x, y]\<close> with its first
  transform.
\<close>

theorem mask_equals_payload_names_witness:
  "mut (WithTransforms (NewUpsert savePropertyList keyK [(''x'', 1), (''y'', 2)] :: (nat, nat) Mutation)
          [\<lparr>pb = Some 7\<rparr>]) =
     Some \<lparr>Operation = Some (Mutation_Upsert
                \<lparr>EntityKey = Some (KeyProto keyK), Properties = [(''x'', 1), (''y'', 2)]\<rparr>),
           PropertyTransforms = [7],
           PropertyMask = Some \<lparr>Paths = [''x'', ''y'']\<rparr>\<rparr> \<and>
   set [''x'', ''y''] = fst ` set [(''x'', 1 :: nat), (''y'', 2)]"
proof -
  let ?e = "\<lparr>EntityKey = Some (KeyProto keyK), Properties = [(''x'', 1 :: nat), (''y'', 2)]\<rparr>"
  let ?p = "\<lparr>Operation = Some (Mutation_Upsert ?e), PropertyTransforms = ([] :: nat list),
             PropertyMask = None\<rparr>"
  let ?m = "NewUpsert savePropertyList keyK [(''x'', 1), (''y'', 2)] :: (nat, nat) Mutation"
  let ?p' = "\<lparr>Operation = Some (Mutation_Upsert ?e), PropertyTransforms = [7 :: nat],
              PropertyMask = Some \<lparr>Paths = [''x'', ''y'']\<rparr>\<rparr>"
  have 1: "err ?m = None" and 2: "mut ?m = Some ?p" and 3: "Operation ?p = Some (Mutation_Upsert ?e)"
    by (simp_all add: ctor_defs)
  have 4: "Mutation_Upsert ?e = Mutation_Insert ?e \<or> Mutation_Upsert ?e = Mutation_Update ?e \<or>
           Mutation_Upsert ?e = Mutation_Upsert ?e" by simp
  have 5: "err (WithTransforms ?m [\<lparr>pb = Some 7\<rparr>]) = None"
    and 6: "mut (WithTransforms ?m [\<lparr>pb = Some 7\<rparr>]) = Some ?p'"
    by (simp_all add: ctor_defs WithTransforms_def isDelete_def
          setMutationProtoPropertyMaskForTransforms_def)
  have 7: "PropertyTransforms ?p' \<noteq> []" by simp
  from mask_equals_payload_names [OF 1 2 3 4 5 6 7] 6 show ?thesis by simp
qed

subsection \<open>C3: deduplicated deletes, everything else in order\<close>

text \<open>
  Claim C3. For every batch of error-free mutations, each in the valid state
  (as every error-free mutation is that a constructor or \<^verbatim>\<open>WithTransforms\<close>
  returns, by \<open>produced_state\<close>), the batch builder returns the wire mutations
  of the indices \<open>emittedIndices\<close>, in ascending index order: every index of
  the batch but those of a delete with an earlier delete of the same key string
  before it. A mutation that is not a delete is always among them, whatever
  else targets its key.
\<close>

theorem mutationProtos_dedups_deletes:
  assumes "\<forall>m \<in> set muts. validState m"
  shows "(\<exists>protos. mutationProtos muts = Protos protos \<and>
            map Some protos = map (\<lambda>i. mut (muts ! i)) (emittedIndices muts)) \<and>
         sorted_wrt (<) (emittedIndices muts) \<and>
         (\<forall>i<length muts. i \<in> set (emittedIndices muts) \<longleftrightarrow> \<not> duplicateDelete muts i) \<and>
         (\<forall>i<length muts. isDelete (muts ! i) \<noteq> Some True \<longrightarrow> i \<in> set (emittedIndices muts))"
proof (intro conjI)
  show "\<exists>protos. mutationProtos muts = Protos protos \<and>
            map Some protos = map (\<lambda>i. mut (muts ! i)) (emittedIndices muts)"
    using assms by (rule mutationProtos_valid)
  show "sorted_wrt (<) (emittedIndices muts)"
    unfolding emittedIndices_def by (rule sorted_wrt_filter) (rule sorted_wrt_upt)
  show "\<forall>i<length muts. i \<in> set (emittedIndices muts) \<longleftrightarrow> \<not> duplicateDelete muts i"
    by (simp add: emittedIndices_def)
  show "\<forall>i<length muts. isDelete (muts ! i) \<noteq> Some True \<longrightarrow> i \<in> set (emittedIndices muts)"
    by (simp add: emittedIndices_def duplicateDelete_def)
qed

text \<open>
  Delete K, upsert K, delete K, delete L: the second delete of K is dropped, the
  upsert of K stays.
\<close>

theorem mutationProtos_dedups_deletes_witness:
  "mutationProtos
     [NewDelete keyK :: (nat, nat) Mutation, NewUpsert savePropertyList keyK [(''x'', 1)],
      NewDelete keyK, NewDelete keyL] =
   Protos
     [\<lparr>Operation = Some (Mutation_Delete (KeyProto keyK)), PropertyTransforms = [], PropertyMask = None\<rparr>,
      \<lparr>Operation = Some (Mutation_Upsert \<lparr>EntityKey = Some (KeyProto keyK), Properties = [(''x'', 1)]\<rparr>),
         PropertyTransforms = [], PropertyMask = None\<rparr>,
      \<lparr>Operation = Some (Mutation_Delete (KeyProto keyL)), PropertyTransforms = [], PropertyMask = None\<rparr>] \<and>
   emittedIndices
     [NewDelete keyK :: (nat, nat) Mutation, NewUpsert savePropertyList keyK [(''x'', 1)],
      NewDelete keyK, NewDelete keyL] = [0, 1, 3]"
proof -
  let ?muts = "[NewDelete keyK :: (nat, nat) Mutation, NewUpsert savePropertyList keyK [(''x'', 1)],
      NewDelete keyK, NewDelete keyL]"
  have v: "\<forall>m \<in> set ?muts. validState m"
    by (simp add: ctor_defs validState_def isDelete_def)
  have i: "emittedIndices ?muts = [0, 1, 3]"
    by (simp add: ctor_defs isDelete_def emittedIndices_def duplicateDelete_def keyString_def upt_rec)
  from mutationProtos_dedups_deletes [OF v]
  obtain protos where "mutationProtos ?muts = Protos protos"
    and "map Some protos = map (\<lambda>i. mut (?muts ! i)) (emittedIndices ?muts)"
    by blast
  then show ?thesis unfolding i by (auto simp: ctor_defs)
qed

subsection \<open>C4: the positional aggregate error\<close>

lemma list_eq_map_nth:
  "length xs = length ys \<Longrightarrow> \<forall>i<length ys. xs ! i = f (ys ! i) \<Longrightarrow> xs = map f ys"
  by (simp add: nth_equalityI)

text \<open>
  Claim C4. For every batch with at least one mutation whose error is set, the
  batch builder returns no wire output and the aggregate error; its length is
  the number of input mutations, and at every index it holds that mutation's
  error: nil for an error-free one, its own error otherwise.
\<close>

theorem mutationProtos_aggregates_errors:
  assumes "\<exists>m \<in> set muts. err m \<noteq> None"
  shows "\<exists>merr. mutationProtos muts = Failed merr \<and> length merr = length muts \<and>
           (\<forall>i<length muts. merr ! i = err (muts ! i))"
proof -
  from assms have "mutationProtos muts = Failed (map err muts)"
    by (auto simp add: mutationProtos_def collectErrors_eq)
  then show ?thesis by simp
qed

text \<open>A batch of four with the errors at indices 1 and 3.\<close>

theorem mutationProtos_aggregates_errors_witness:
  "mutationProtos
     [NewDelete keyK :: (nat, nat) Mutation, NewDelete keyBad,
      NewUpsert savePropertyList keyL [(''x'', 1)], NewUpdate savePropertyList keyIncomplete []] =
   Failed [None, Some ErrInvalidKey, None, Some (ErrIncompleteKeyUpdate keyIncomplete)]"
proof -
  let ?muts = "[NewDelete keyK :: (nat, nat) Mutation, NewDelete keyBad,
      NewUpsert savePropertyList keyL [(''x'', 1)], NewUpdate savePropertyList keyIncomplete []]"
  have "\<exists>m \<in> set ?muts. err m \<noteq> None" by (simp add: ctor_defs)
  from mutationProtos_aggregates_errors [OF this]
  obtain merr where m: "mutationProtos ?muts = Failed merr" and l: "length merr = length ?muts"
    and n: "\<forall>i<length ?muts. merr ! i = err (?muts ! i)"
    by blast
  have "merr = map err ?muts"
    using l n by (rule list_eq_map_nth)
  with m show ?thesis by (simp add: ctor_defs)
qed

subsection \<open>C5: transforms on a delete\<close>

text \<open>
  Claim C5. For every error-free delete mutation, \<^verbatim>\<open>WithTransforms\<close> with any
  transform list returns the mutation with the delete-transform error set and
  nothing else changed: no transform appended, no property mask set.
\<close>

theorem WithTransforms_on_delete:
  assumes "err m = None" and "mut m = Some p" and "Operation p = Some (Mutation_Delete d)"
  shows "WithTransforms m transforms = m\<lparr>err := Some ErrTransformOnDelete\<rparr>"
  using assms by (simp add: WithTransforms_def isDelete_def)

theorem WithTransforms_on_delete_witness:
  "WithTransforms (NewDelete keyK :: (nat, nat) Mutation) [\<lparr>pb = Some 7\<rparr>] =
     \<lparr>key = Some keyK,
      mut = Some \<lparr>Operation = Some (Mutation_Delete (KeyProto keyK)), PropertyTransforms = [],
                  PropertyMask = None\<rparr>,
      err = Some ErrTransformOnDelete\<rparr>"
proof -
  let ?m = "NewDelete keyK :: (nat, nat) Mutation"
  let ?p = "\<lparr>Operation = Some (Mutation_Delete (KeyProto keyK)), PropertyTransforms = ([] :: nat list),
             PropertyMask = None\<rparr> :: (nat, nat) pb_Mutation"
  have "err ?m = None" and "mut ?m = Some ?p" and "Operation ?p = Some (Mutation_Delete (KeyProto keyK))"
    by (simp_all add: ctor_defs)
  from WithTransforms_on_delete [OF this, of "[\<lparr>pb = Some 7\<rparr>]"] show ?thesis
    by (simp add: ctor_defs)
qed

subsection \<open>C6: the error is sticky\<close>

text \<open>
  Claim C6. For every mutation whose error is set, a \<^verbatim>\<open>WithTransforms\<close> call
  returns the mutation unchanged, and so does any sequence of such calls: the
  first error stays, never cleared or replaced.
\<close>

theorem WithTransforms_error_sticky:
  assumes "err m = Some e"
  shows "WithTransforms m transforms = m \<and> foldl WithTransforms m calls = m \<and>
         err (foldl WithTransforms m calls) = Some e"
proof -
  have one: "WithTransforms m ts = m" for ts
    using assms by (simp add: WithTransforms_err)
  have "foldl WithTransforms m calls = m"
    by (induction calls) (simp_all add: one)
  with one assms show ?thesis by simp
qed

text \<open>
  An error of a constructor survives two later calls, one with a valid
  transform and one with an uninitialized one.
\<close>

theorem WithTransforms_error_sticky_witness:
  "foldl WithTransforms (NewDelete keyBad :: (nat, nat) Mutation) [[\<lparr>pb = Some 7\<rparr>], [\<lparr>pb = None\<rparr>]] =
     \<lparr>key = None, mut = None, err = Some ErrInvalidKey\<rparr>"
proof -
  have "err (NewDelete keyBad :: (nat, nat) Mutation) = Some ErrInvalidKey"
    by (simp add: ctor_defs)
  from WithTransforms_error_sticky [OF this, of _ "[[\<lparr>pb = Some 7\<rparr>], [\<lparr>pb = None\<rparr>]]"]
  show ?thesis by (simp add: ctor_defs)
qed

subsection \<open>C7: errors of NewUpdate and NewDelete on bad keys\<close>

text \<open>
  Claim C7, as amended. For every key that is valid and incomplete,
  \<^verbatim>\<open>NewUpdate\<close> and \<^verbatim>\<open>NewDelete\<close> return a mutation carrying the incomplete-key
  error, with nothing else set; for every invalid key they return a mutation
  carrying the invalid-key error, also when the key is incomplete as well.
\<close>

theorem bad_key_errors:
  "(valid k \<and> Incomplete k \<longrightarrow>
      (NewUpdate saveEntity k src :: ('v, 't) Mutation) = errMutation (ErrIncompleteKeyUpdate k) \<and>
      (NewDelete k :: ('v, 't) Mutation) = errMutation (ErrIncompleteKeyDelete k) \<and>
      isIncompleteKeyError (ErrIncompleteKeyUpdate k) \<and>
      isIncompleteKeyError (ErrIncompleteKeyDelete k)) \<and>
   (\<not> valid k \<longrightarrow>
      (NewUpdate saveEntity k src :: ('v, 't) Mutation) = errMutation ErrInvalidKey \<and>
      (NewDelete k :: ('v, 't) Mutation) = errMutation ErrInvalidKey)"
  by (simp add: NewUpdate_def NewDelete_def)

text \<open>A valid incomplete key, and a key that is invalid and incomplete.\<close>

theorem bad_key_errors_witness:
  "err (NewUpdate savePropertyList keyIncomplete [(''x'', 1)] :: (nat, nat) Mutation) =
     Some (ErrIncompleteKeyUpdate keyIncomplete) \<and>
   err (NewDelete keyIncomplete :: (nat, nat) Mutation) = Some (ErrIncompleteKeyDelete keyIncomplete) \<and>
   err (NewUpdate savePropertyList keyBad [(''x'', 1)] :: (nat, nat) Mutation) = Some ErrInvalidKey \<and>
   err (NewDelete keyBad :: (nat, nat) Mutation) = Some ErrInvalidKey"
proof -
  let ?enc = "savePropertyList :: Key \<Rightarrow> (string \<times> nat) list \<Rightarrow> error + nat pb_Entity"
  have i: "valid keyIncomplete \<and> Incomplete keyIncomplete" and b: "\<not> valid keyBad"
    by simp_all
  from i bad_key_errors [of keyIncomplete ?enc "[(''x'', 1)]"]
  have "(NewUpdate ?enc keyIncomplete [(''x'', 1)] :: (nat, nat) Mutation) =
          errMutation (ErrIncompleteKeyUpdate keyIncomplete)"
    and "(NewDelete keyIncomplete :: (nat, nat) Mutation) = errMutation (ErrIncompleteKeyDelete keyIncomplete)"
    by blast+
  moreover from b bad_key_errors [of keyBad ?enc "[(''x'', 1)]"]
  have "(NewUpdate ?enc keyBad [(''x'', 1)] :: (nat, nat) Mutation) = errMutation ErrInvalidKey"
    and "(NewDelete keyBad :: (nat, nat) Mutation) = errMutation ErrInvalidKey"
    by blast+
  ultimately show ?thesis by (simp add: errMutation_def)
qed

text \<open>
  The claim as stated fails for an incomplete key that is also invalid: the
  validity check comes first, and the error is the invalid-key error, not an
  incomplete-key error.
\<close>

theorem incomplete_invalid_key_counterexample:
  "Incomplete keyBad \<and>
   err (NewDelete keyBad :: (nat, nat) Mutation) = Some ErrInvalidKey \<and>
   \<not> isIncompleteKeyError ErrInvalidKey \<and>
   err (NewUpdate savePropertyList keyBad [(''x'', 1)] :: (nat, nat) Mutation) = Some ErrInvalidKey"
  by (simp add: ctor_defs)

subsection \<open>C8: the order of transforms\<close>

text \<open>
  Claim C8, as amended. For every error-free mutation that is not a delete,
  with transform list \<open>T\<close>, and all valid transforms \<open>A\<close>, \<open>B\<close>, \<open>C\<close>, calling
  \<^verbatim>\<open>WithTransforms\<close> with \<open>[A, B]\<close> and then with \<open>[C]\<close> succeeds and yields the
  transform list \<open>T\<close> followed by \<open>[A, B, C]\<close>; for a mutation without transforms,
  as every constructor returns it, that is exactly \<open>[A, B, C]\<close>.
\<close>

theorem WithTransforms_order:
  assumes "err m = None" and "mut m = Some p" and "isDelete m = Some False"
    and "pb A = Some a" and "pb B = Some b" and "pb C = Some c"
  shows "\<exists>p'. mut (WithTransforms (WithTransforms m [A, B]) [C]) = Some p' \<and>
           err (WithTransforms (WithTransforms m [A, B]) [C]) = None \<and>
           PropertyTransforms p' = PropertyTransforms p @ [a, b, c] \<and>
           (PropertyTransforms p = [] \<longrightarrow> PropertyTransforms p' = [a, b, c])"
proof -
  define q where "q = setMutationProtoPropertyMaskForTransforms
              (p\<lparr>PropertyTransforms := PropertyTransforms p @ List.map_filter pb [A, B]\<rparr>)"
  define m1 where "m1 = WithTransforms m [A, B]"
  have v1: "\<forall>t \<in> set [A, B]. pb t \<noteq> None" using assms(4,5) by simp
  have m1: "m1 = m\<lparr>mut := Some q\<rparr>"
    unfolding m1_def q_def by (rule WithTransforms_valid [OF assms(1-3) v1])
  have q: "PropertyTransforms q = PropertyTransforms p @ [a, b]" and oq: "Operation q = Operation p"
    using assms(4,5) by (simp_all add: q_def setMask_PropertyTransforms setMask_Operation)
  have e1: "err m1 = None" and mq: "mut m1 = Some q"
    using assms(1) by (simp_all add: m1)
  have d1: "isDelete m1 = Some False"
    using assms(2,3) by (simp add: m1 isDelete_def oq)
  have v2: "\<forall>t \<in> set [C]. pb t \<noteq> None" using assms(6) by simp
  define r where "r = setMutationProtoPropertyMaskForTransforms
              (q\<lparr>PropertyTransforms := PropertyTransforms q @ List.map_filter pb [C]\<rparr>)"
  have m2: "WithTransforms m1 [C] = m1\<lparr>mut := Some r\<rparr>"
    unfolding r_def by (rule WithTransforms_valid [OF e1 mq d1 v2])
  have r: "PropertyTransforms r = PropertyTransforms p @ [a, b, c]"
    using assms(6) by (simp add: r_def setMask_PropertyTransforms q)
  have "mut (WithTransforms m1 [C]) = Some r" and "err (WithTransforms m1 [C]) = None"
    using e1 by (simp_all add: m2)
  with r show ?thesis unfolding m1_def by simp
qed

text \<open>A fresh upsert, decorated with \<open>[1, 2]\<close> and then \<open>[3]\<close>.\<close>

theorem WithTransforms_order_witness:
  "map_option PropertyTransforms
     (mut (WithTransforms
        (WithTransforms (NewUpsert savePropertyList keyK [(''x'', 1)] :: (nat, nat) Mutation)
           [\<lparr>pb = Some 1\<rparr>, \<lparr>pb = Some 2\<rparr>])
        [\<lparr>pb = Some 3\<rparr>])) = Some [1, 2, 3]"
proof -
  let ?m = "NewUpsert savePropertyList keyK [(''x'', 1)] :: (nat, nat) Mutation"
  let ?p = "\<lparr>Operation = Some (Mutation_Upsert
                \<lparr>EntityKey = Some (KeyProto keyK), Properties = [(''x'', 1 :: nat)]\<rparr>),
             PropertyTransforms = ([] :: nat list), PropertyMask = None\<rparr>"
  have "err ?m = None" and "mut ?m = Some ?p" and "isDelete ?m = Some False"
    and "pb \<lparr>pb = Some (1 :: nat)\<rparr> = Some 1" and "pb \<lparr>pb = Some (2 :: nat)\<rparr> = Some 2"
    and "pb \<lparr>pb = Some (3 :: nat)\<rparr> = Some 3"
    by (simp_all add: ctor_defs isDelete_def)
  from WithTransforms_order [OF this] show ?thesis by auto
qed

text \<open>
  The claim as stated fails for a mutation that carries a transform already:
  an upsert decorated with \<open>[0]\<close> is error-free and not a delete, and after
  \<open>[1, 2]\<close> and \<open>[3]\<close> its transform list is \<open>[0, 1, 2, 3]\<close>, not \<open>[1, 2, 3]\<close>.
\<close>

theorem transform_list_not_exact_counterexample:
  "err (WithTransforms (NewUpsert savePropertyList keyK [(''x'', 1)] :: (nat, nat) Mutation)
          [\<lparr>pb = Some 0\<rparr>]) = None \<and>
   isDelete (WithTransforms (NewUpsert savePropertyList keyK [(''x'', 1)] :: (nat, nat) Mutation)
          [\<lparr>pb = Some 0\<rparr>]) = Some False \<and>
   map_option PropertyTransforms
     (mut (WithTransforms
        (WithTransforms
           (WithTransforms (NewUpsert savePropertyList keyK [(''x'', 1)] :: (nat, nat) Mutation)
              [\<lparr>pb = Some 0\<rparr>])
           [\<lparr>pb = Some 1\<rparr>, \<lparr>pb = Some 2\<rparr>])
        [\<lparr>pb = Some 3\<rparr>])) = Some [0, 1, 2, 3] \<and>
   [0, 1, 2, 3] \<noteq> [1, 2, 3 :: nat]"
  by (simp add: ctor_defs WithTransforms_def isDelete_def
        setMutationProtoPropertyMaskForTransforms_def)

subsection \<open>C9: where the batch builder dereferences nil\<close>

text \<open>
  Claim C9. When every mutation of the batch was returned by one of the four
  constructors or by \<^verbatim>\<open>WithTransforms\<close>, each has an error or a wire mutation,
  and the batch builder does not dereference nil: it returns. The zero-value
  mutation, with neither, is not so produced, and on it the delete check of
  the batch builder dereferences nil.
\<close>

theorem mutationProtos_total_on_produced:
  "((\<forall>m \<in> set muts. produced saveEntity m) \<longrightarrow>
      (\<forall>m \<in> set muts. err m \<noteq> None \<or> mut m \<noteq> None) \<and>
      (\<exists>protos. mutationProtos muts = Protos protos \<or>
         mutationProtos muts = Failed (map err muts))) \<and>
   \<not> produced saveEntity (zeroMutation :: ('v, 't) Mutation) \<and>
   err (zeroMutation :: ('v, 't) Mutation) = None \<and>
   isDelete (zeroMutation :: ('v, 't) Mutation) = None \<and>
   mutationProtos [zeroMutation :: ('v, 't) Mutation] = NilDereference"
proof (intro conjI impI)
  assume a: "\<forall>m \<in> set muts. produced saveEntity m"
  then show "\<forall>m \<in> set muts. err m \<noteq> None \<or> mut m \<noteq> None"
    using produced_state by (fastforce simp: validState_def)
  show "\<exists>protos. mutationProtos muts = Protos protos \<or>
         mutationProtos muts = Failed (map err muts)"
  proof (cases "\<forall>m \<in> set muts. err m = None")
    case True
    with a produced_state have "\<forall>m \<in> set muts. validState m" by blast
    from mutationProtos_valid [OF this] show ?thesis by blast
  next
    case False
    then show ?thesis by (auto simp: mutationProtos_def collectErrors_eq)
  qed
next
  show "\<not> produced saveEntity (zeroMutation :: ('v, 't) Mutation)"
    using produced_state [of saveEntity "zeroMutation :: ('v, 't) Mutation"]
    by (auto simp: zeroMutation_def validState_def)
next
  show "err (zeroMutation :: ('v, 't) Mutation) = None"
    and "isDelete (zeroMutation :: ('v, 't) Mutation) = None"
    and "mutationProtos [zeroMutation :: ('v, 't) Mutation] = NilDereference"
    by (simp_all add: mutationProtos_def zeroMutation_def isDelete_def)
qed

text \<open>
  A delete from its constructor and the zero value passed through
  \<^verbatim>\<open>WithTransforms\<close>: the batch builder returns the aggregate error.
\<close>

theorem mutationProtos_total_on_produced_witness:
  "produced (savePropertyList :: Key \<Rightarrow> (string \<times> nat) list \<Rightarrow> error + nat pb_Entity)
     (NewDelete keyK :: (nat, nat) Mutation) \<and>
   produced (savePropertyList :: Key \<Rightarrow> (string \<times> nat) list \<Rightarrow> error + nat pb_Entity)
     (WithTransforms (zeroMutation :: (nat, nat) Mutation) []) \<and>
   mutationProtos [NewDelete keyK :: (nat, nat) Mutation, WithTransforms zeroMutation []] =
     Failed [None, Some ErrUninitializedMutation]"
proof -
  let ?enc = "savePropertyList :: Key \<Rightarrow> (string \<times> nat) list \<Rightarrow> error + nat pb_Entity"
  let ?d = "NewDelete keyK :: (nat, nat) Mutation"
  let ?z = "WithTransforms (zeroMutation :: (nat, nat) Mutation) []"
  have d: "produced ?enc ?d"
    by (intro produced.byConstructor constructed.byNewDelete)
  have z: "produced ?enc ?z" by (rule produced.byWithTransforms)
  from d z have "\<forall>m \<in> set [?d, ?z]. produced ?enc m" by simp
  with mutationProtos_total_on_produced [of "[?d, ?z]" ?enc]
  have "\<exists>protos. mutationProtos [?d, ?z] = Protos protos \<or>
          mutationProtos [?d, ?z] = Failed (map err [?d, ?z])"
    by blast
  moreover have "mutationProtos [?d, ?z] \<noteq> Protos protos" for protos
    by (simp add: mutationProtos_def ctor_defs zeroMutation_def WithTransforms_def)
  ultimately have "mutationProtos [?d, ?z] = Failed (map err [?d, ?z])" by blast
  with d z show ?thesis
    by (simp add: ctor_defs zeroMutation_def WithTransforms_def)
qed

subsection \<open>C10: a failing call keeps what it appended\<close>

text \<open>
  Claim C10. When \<^verbatim>\<open>WithTransforms\<close> is called on an error-free mutation that is
  not a delete, with a transform list whose first uninitialized transform is at
  position \<open>i\<close>, the call sets the uninitialized-transform error, and the wire
  transforms of positions \<open>0\<close> to \<open>i - 1\<close> are appended to the transform list all
  the same; the property mask stays what it was, not recomputed.
\<close>

theorem WithTransforms_partial_append:
  assumes "err m = None" and "mut m = Some p" and "isDelete m = Some False"
    and "i < length transforms" and "pb (transforms ! i) = None"
    and "\<forall>j<i. pb (transforms ! j) \<noteq> None"
  shows "\<exists>wire. map Some wire = map pb (take i transforms) \<and>
           WithTransforms m transforms =
             m\<lparr>mut := Some (p\<lparr>PropertyTransforms := PropertyTransforms p @ wire\<rparr>),
               err := Some ErrUninitializedTransform\<rparr> \<and>
           map_option PropertyMask (mut (WithTransforms m transforms)) = Some (PropertyMask p)"
proof -
  let ?wire = "List.map_filter pb (take i transforms)"
  from assms(4,6) have "\<forall>t \<in> set (take i transforms). pb t \<noteq> None"
    by (intro take_all_valid) simp_all
  then have "map Some ?wire = map pb (take i transforms)"
    by (rule map_filter_all_Some)
  moreover have w: "WithTransforms m transforms =
             m\<lparr>mut := Some (p\<lparr>PropertyTransforms := PropertyTransforms p @ ?wire\<rparr>),
               err := Some ErrUninitializedTransform\<rparr>"
    by (rule WithTransforms_invalid [OF assms])
  moreover have "map_option PropertyMask (mut (WithTransforms m transforms)) = Some (PropertyMask p)"
    by (simp add: w)
  ultimately show ?thesis by blast
qed

text \<open>
  A fresh upsert and the list \<open>[5, nil, 6]\<close>: the error is set, \<open>5\<close> stays
  appended, and there is no property mask although a transform is attached.
\<close>

theorem WithTransforms_partial_append_witness:
  "WithTransforms (NewUpsert savePropertyList keyK [(''x'', 1)] :: (nat, nat) Mutation)
     [\<lparr>pb = Some 5\<rparr>, \<lparr>pb = None\<rparr>, \<lparr>pb = Some 6\<rparr>] =
   \<lparr>key = Some keyK,
    mut = Some \<lparr>Operation = Some (Mutation_Upsert
                    \<lparr>EntityKey = Some (KeyProto keyK), Properties = [(''x'', 1)]\<rparr>),
                PropertyTransforms = [5], PropertyMask = None\<rparr>,
    err = Some ErrUninitializedTransform\<rparr>"
proof -
  let ?m = "NewUpsert savePropertyList keyK [(''x'', 1)] :: (nat, nat) Mutation"
  let ?p = "\<lparr>Operation = Some (Mutation_Upsert
                \<lparr>EntityKey = Some (KeyProto keyK), Properties = [(''x'', 1 :: nat)]\<rparr>),
             PropertyTransforms = ([] :: nat list), PropertyMask = None\<rparr>"
  let ?ts = "[\<lparr>pb = Some (5 :: nat)\<rparr>, \<lparr>pb = None\<rparr>, \<lparr>pb = Some 6\<rparr>]"
  have "err ?m = None" and "mut ?m = Some ?p" and "isDelete ?m = Some False"
    and "1 < length ?ts" and "pb (?ts ! 1) = None" and "\<forall>j<1. pb (?ts ! j) \<noteq> None"
    by (simp_all add: ctor_defs isDelete_def)
  from WithTransforms_partial_append [OF this]
  obtain wire where "map Some wire = map pb (take 1 ?ts)"
    and "WithTransforms ?m ?ts =
           ?m\<lparr>mut := Some (?p\<lparr>PropertyTransforms := PropertyTransforms ?p @ wire\<rparr>),
              err := Some ErrUninitializedTransform\<rparr>"
    by blast
  then show ?thesis by (auto simp: ctor_defs)
qed

end
